theory Spec2Isabelle
  imports Main
begin

section \<open>The SentencingFHE contract (src/contracts/SentencingFHE.sol)\<close>

subsection \<open>Machine integers and external capabilities\<close>

text \<open>
  Solidity 0.8 arithmetic on \<open>uint256\<close> is checked: an addition that leaves
  the range reverts the call with a panic. Values of type \<open>uint256\<close> are natural
  numbers here and every checked addition of the source is written out against this bound.
\<close>

definition uint256_max :: nat where
  "uint256_max = 2 ^ 256 - 1"

text \<open>
  The revert reasons of the contract are its \<open>require\<close> strings. The spec's
  error names are abbreviations of them. \<open>ProofInvalid\<close> and \<open>DecodeError\<close> are
  the reverts raised inside \<open>FHE.checkSignatures\<close> and \<open>abi.decode\<close>;
  \<open>Panic\<close> is the arithmetic panic.
\<close>

datatype error = Revert string | ProofInvalid | DecodeError | Panic

abbreviation AlreadyAnalyzed :: error where
  "AlreadyAnalyzed \<equiv> Revert ''Already analyzed''"

abbreviation InvalidRequest :: error where
  "InvalidRequest \<equiv> Revert ''Invalid request''"

abbreviation NotFound :: error where
  "NotFound \<equiv> Revert ''Judge not found''"

text \<open>
  Modelled from the spec: the FHE library (\<open>@fhevm/solidity\<close>) is an external
  collaborator and not part of the sources. A ciphertext handle \<open>euint32\<close> is
  \<open>None\<close> for the uninitialised (zero) handle and \<open>Some n\<close> for a ciphertext
  whose plaintext is \<open>n\<close>. Homomorphic addition is integer addition on the
  plaintexts, as the spec's accumulator invariant takes it (a 32-bit wrap-around
  is outside this model); an uninitialised operand counts as zero.
\<close>

type_synonym euint32 = "nat option"

definition FHE_isInitialized :: "euint32 \<Rightarrow> bool" where
  "FHE_isInitialized h = (h \<noteq> None)"

definition FHE_asEuint32 :: "nat \<Rightarrow> euint32" where
  "FHE_asEuint32 v = Some v"

definition decrypted :: "euint32 \<Rightarrow> nat" where
  "decrypted h = (case h of None \<Rightarrow> 0 | Some v \<Rightarrow> v)"

definition FHE_add :: "euint32 \<Rightarrow> euint32 \<Rightarrow> euint32" where
  "FHE_add a b = Some (decrypted a + decrypted b)"

definition FHE_toBytes32 :: "euint32 \<Rightarrow> euint32" where
  "FHE_toBytes32 h = h"

text \<open>
  Modelled from the spec: the callback payload \<open>cleartexts\<close> is a byte string that
  \<open>abi.decode\<close> reads either as \<open>(string, uint256, string)\<close> or as
  \<open>uint32\<close>. The byte-level ABI encoding is not modelled: a payload is one of the
  two well-formed shapes or malformed, and decoding a payload of the wrong shape or
  with a number out of range reverts.
\<close>

datatype cleartexts =
    CaseCleartexts string nat string
  | StatsCleartexts nat
  | Malformed

fun abi_decode_case :: "cleartexts \<Rightarrow> (string \<times> nat \<times> string) option" where
  "abi_decode_case (CaseCleartexts c n j) = (if n \<le> uint256_max then Some (c, n, j) else None)"
| "abi_decode_case (StatsCleartexts n) = None"
| "abi_decode_case Malformed = None"

fun abi_decode_uint32 :: "cleartexts \<Rightarrow> nat option" where
  "abi_decode_uint32 (StatsCleartexts n) = (if n < 2 ^ 32 then Some n else None)"
| "abi_decode_uint32 (CaseCleartexts c n j) = None"
| "abi_decode_uint32 Malformed = None"

text \<open>
  Modelled from the spec: the oracle's proof is checked against the request identifier
  and the cleartext bytes by \<open>FHE.checkSignatures\<close>, which reverts on a mismatch.
  A proof is either the oracle's signature over one \<open>(requestId, cleartexts)\<close> pair
  or anything else.
\<close>

datatype kms_proof = KmsSignatures nat cleartexts | Forged

definition FHE_checkSignatures :: "nat \<Rightarrow> cleartexts \<Rightarrow> kms_proof \<Rightarrow> bool" where
  "FHE_checkSignatures requestId ct p = (p = KmsSignatures requestId ct)"

text \<open>
  Modelled from the spec: \<open>keccak256(abi.encodePacked(s))\<close> is taken collision-free,
  so that comparing two hashes is the exact, case-sensitive comparison of the strings.
  The stand-in reads the bytes of the string as digits in base 256 below a leading one.
\<close>

fun keccak256 :: "string \<Rightarrow> nat" where
  "keccak256 [] = 1"
| "keccak256 (c # cs) = of_char c + 256 * keccak256 cs"

definition bytes32ToUint :: "nat \<Rightarrow> nat" where
  "bytes32ToUint b = b"

subsection \<open>Contract storage\<close>

text \<open>The field \<open>id\<close> of \<open>EncryptedCase\<close> is named \<open>case_id\<close> here.\<close>

record EncryptedCase =
  case_id :: nat
  encryptedCharge :: euint32
  encryptedSentence :: euint32
  encryptedJudgeId :: euint32
  timestamp :: nat

record DecryptedCase =
  charge :: string
  sentence :: nat
  judgeId :: string
  isAnalyzed :: bool

datatype event =
    CaseSubmitted nat nat
  | AnalysisRequested nat
  | CaseAnalyzed nat

datatype selector = AnalyzeCaseSelector | DecryptJudgeStatsSelector

text \<open>
  A Solidity mapping is a total function whose unwritten slots read as zero. The last
  two fields are the decryption oracle's side of the protocol (modelled from the spec:
  request identifiers are handed out by the oracle and never reused): its request
  counter and the requests it has received.
\<close>

record contract =
  caseCount :: nat
  encryptedCases :: "nat \<Rightarrow> EncryptedCase"
  decryptedCases :: "nat \<Rightarrow> DecryptedCase"
  encryptedJudgeStats :: "string \<Rightarrow> euint32"
  judgeList :: "string list"
  requestToCaseId :: "nat \<Rightarrow> nat"
  events :: "event list"
  counterRequest :: nat
  decryptionRequests :: "(nat \<times> euint32 list \<times> selector) list"

definition zeroEncryptedCase :: EncryptedCase where
  "zeroEncryptedCase =
     \<lparr>case_id = 0, encryptedCharge = None, encryptedSentence = None,
      encryptedJudgeId = None, timestamp = 0\<rparr>"

definition zeroDecryptedCase :: DecryptedCase where
  "zeroDecryptedCase = \<lparr>charge = [], sentence = 0, judgeId = [], isAnalyzed = False\<rparr>"

definition deployed :: contract where
  "deployed =
     \<lparr>caseCount = 0,
      encryptedCases = (\<lambda>_. zeroEncryptedCase),
      decryptedCases = (\<lambda>_. zeroDecryptedCase),
      encryptedJudgeStats = (\<lambda>_. None),
      judgeList = [],
      requestToCaseId = (\<lambda>_. 0),
      events = [],
      counterRequest = 0,
      decryptionRequests = []\<rparr>"

text \<open>
  Modelled from the spec: \<open>FHE.requestDecryption\<close> hands the handles and the callback
  selector to the oracle, which accepts every request and answers with the next
  request identifier.
\<close>

definition FHE_requestDecryption ::
  "contract \<Rightarrow> euint32 list \<Rightarrow> selector \<Rightarrow> nat \<times> contract" where
  "FHE_requestDecryption s ciphertexts sel =
     (counterRequest s,
      s\<lparr>counterRequest := counterRequest s + 1,
        decryptionRequests := decryptionRequests s @ [(counterRequest s, ciphertexts, sel)]\<rparr>)"

subsection \<open>Case ledger\<close>

definition submitEncryptedCase ::
  "contract \<Rightarrow> euint32 \<Rightarrow> euint32 \<Rightarrow> euint32 \<Rightarrow> nat \<Rightarrow> error + contract" where
  "submitEncryptedCase s eCharge eSentence eJudge now =
     (if caseCount s \<ge> uint256_max then Inl Panic
      else
        let newId = caseCount s + 1 in
        Inr (s\<lparr>caseCount := newId,
               encryptedCases := (encryptedCases s)(newId :=
                 \<lparr>case_id = newId, encryptedCharge = eCharge, encryptedSentence = eSentence,
                  encryptedJudgeId = eJudge, timestamp = now\<rparr>),
               decryptedCases := (decryptedCases s)(newId :=
                 \<lparr>charge = [], sentence = 0, judgeId = [], isAnalyzed = False\<rparr>),
               events := events s @ [CaseSubmitted newId now]\<rparr>))"

text \<open>
  The modifier \<open>onlyCourt\<close> on \<open>requestSentencingAnalysis\<close> has an empty body and
  checks nothing. The storage reference \<open>c\<close> of a case id that was never written
  reads as the zero record.
\<close>

definition requestSentencingAnalysis :: "contract \<Rightarrow> nat \<Rightarrow> error + contract" where
  "requestSentencingAnalysis s caseId =
     (let c = encryptedCases s caseId in
      if isAnalyzed (decryptedCases s caseId) then Inl AlreadyAnalyzed
      else
        let ciphertexts = [FHE_toBytes32 (encryptedCharge c),
                           FHE_toBytes32 (encryptedSentence c),
                           FHE_toBytes32 (encryptedJudgeId c)];
            (reqId, s1) = FHE_requestDecryption s ciphertexts AnalyzeCaseSelector
        in Inr (s1\<lparr>requestToCaseId := (requestToCaseId s1)(reqId := caseId),
                  events := events s1 @ [AnalysisRequested caseId]\<rparr>))"

definition analyzeCase :: "contract \<Rightarrow> nat \<Rightarrow> cleartexts \<Rightarrow> kms_proof \<Rightarrow> error + contract" where
  "analyzeCase s requestId ct p =
     (let caseId = requestToCaseId s requestId in
      if caseId = 0 then Inl InvalidRequest
      else if isAnalyzed (decryptedCases s caseId) then Inl AlreadyAnalyzed
      else if \<not> FHE_checkSignatures requestId ct p then Inl ProofInvalid
      else
        case abi_decode_case ct of
          None \<Rightarrow> Inl DecodeError
        | Some (ch, se, ju) \<Rightarrow>
            let s1 = s\<lparr>decryptedCases := (decryptedCases s)(caseId :=
                        \<lparr>charge = ch, sentence = se, judgeId = ju, isAnalyzed = True\<rparr>)\<rparr>;
                s2 = (if FHE_isInitialized (encryptedJudgeStats s1 ju) = False
                      then s1\<lparr>encryptedJudgeStats :=
                                 (encryptedJudgeStats s1)(ju := FHE_asEuint32 0),
                               judgeList := judgeList s1 @ [ju]\<rparr>
                      else s1);
                s3 = s2\<lparr>encryptedJudgeStats := (encryptedJudgeStats s2)(ju :=
                          FHE_add (encryptedJudgeStats s2 ju) (FHE_asEuint32 1))\<rparr>
            in Inr (s3\<lparr>events := events s3 @ [CaseAnalyzed caseId]\<rparr>))"

definition getDecryptedCase :: "contract \<Rightarrow> nat \<Rightarrow> string \<times> nat \<times> string \<times> bool" where
  "getDecryptedCase s caseId =
     (let c = decryptedCases s caseId in (charge c, sentence c, judgeId c, isAnalyzed c))"

subsection \<open>Aggregation engine\<close>

definition getEncryptedJudgeStats :: "contract \<Rightarrow> string \<Rightarrow> euint32" where
  "getEncryptedJudgeStats s jid = encryptedJudgeStats s jid"

definition requestJudgeStatsDecryption :: "contract \<Rightarrow> string \<Rightarrow> error + contract" where
  "requestJudgeStatsDecryption s jid =
     (let stats = encryptedJudgeStats s jid in
      if \<not> FHE_isInitialized stats then Inl NotFound
      else
        let ciphertexts = [FHE_toBytes32 stats];
            (reqId, s1) = FHE_requestDecryption s ciphertexts DecryptJudgeStatsSelector
        in Inr (s1\<lparr>requestToCaseId :=
                     (requestToCaseId s1)(reqId := bytes32ToUint (keccak256 jid))\<rparr>))"

text \<open>The scan of \<open>getJudgeFromHash\<close>: the first judge of the index whose key matches.\<close>

fun scanJudges :: "string list \<Rightarrow> nat \<Rightarrow> error + string" where
  "scanJudges [] h = Inl NotFound"
| "scanJudges (j # js) h =
     (if bytes32ToUint (keccak256 j) = h then Inr j else scanJudges js h)"

definition getJudgeFromHash :: "contract \<Rightarrow> nat \<Rightarrow> error + string" where
  "getJudgeFromHash s h = scanJudges (judgeList s) h"

text \<open>
  \<open>decryptJudgeStats\<close> has no return value. It resolves the judge, verifies the proof
  and decodes the count into a local variable; no storage slot is written.
\<close>

definition decryptJudgeStats :: "contract \<Rightarrow> nat \<Rightarrow> cleartexts \<Rightarrow> kms_proof \<Rightarrow> error + contract" where
  "decryptJudgeStats s requestId ct p =
     (let judgeHash = requestToCaseId s requestId in
      case getJudgeFromHash s judgeHash of
        Inl e \<Rightarrow> Inl e
      | Inr jid \<Rightarrow>
          if \<not> FHE_checkSignatures requestId ct p then Inl ProofInvalid
          else
            case abi_decode_uint32 ct of
              None \<Rightarrow> Inl DecodeError
            | Some stats \<Rightarrow> Inr s)"

subsection \<open>Query engine\<close>

text \<open>
  One iteration of the scan in \<open>calculateSentencingStats\<close>. The accumulator is
  \<open>(tot, count, minSentence, maxSentence)\<close>; \<open>total += sentence\<close> is checked.
  \<open>count\<close> is at most the loop index, so its increment cannot leave the range.
\<close>

definition statsBody ::
  "contract \<Rightarrow> string \<Rightarrow> nat \<Rightarrow> nat \<times> nat \<times> nat \<times> nat \<Rightarrow> error + (nat \<times> nat \<times> nat \<times> nat)" where
  "statsBody s chargeType i acc =
     (case acc of (tot, count, minSentence, maxSentence) \<Rightarrow>
        if isAnalyzed (decryptedCases s i) \<and>
           keccak256 (charge (decryptedCases s i)) = keccak256 chargeType
        then
          (let v = sentence (decryptedCases s i) in
           if tot + v > uint256_max then Inl Panic
           else Inr (tot + v, count + 1,
                     (if v < minSentence then v else minSentence),
                     (if v > maxSentence then v else maxSentence)))
        else Inr acc)"

text \<open>
  The loop \<open>for (i = 1; i <= caseCount; i++)\<close>. The increment is checked as well:
  with \<open>caseCount\<close> at the top of the range it panics after the last iteration.
\<close>

function statsLoop ::
  "contract \<Rightarrow> string \<Rightarrow> nat \<Rightarrow> nat \<times> nat \<times> nat \<times> nat \<Rightarrow> error + (nat \<times> nat \<times> nat \<times> nat)" where
  "statsLoop s chargeType i acc =
     (if i \<le> caseCount s then
        (case statsBody s chargeType i acc of
           Inl e \<Rightarrow> Inl e
         | Inr acc' \<Rightarrow>
             if i \<ge> uint256_max then Inl Panic
             else statsLoop s chargeType (i + 1) acc')
      else Inr acc)"
  by pat_completeness auto
termination
  by (relation "measure (\<lambda>(s, chargeType, i, acc). caseCount s + 1 - i)") auto

declare statsLoop.simps [simp del]

definition calculateSentencingStats :: "contract \<Rightarrow> string \<Rightarrow> error + (nat \<times> nat \<times> nat)" where
  "calculateSentencingStats s chargeType =
     (case statsLoop s chargeType 1 (0, 0, uint256_max, 0) of
        Inl e \<Rightarrow> Inl e
      | Inr (tot, count, minSentence, maxSentence) \<Rightarrow>
          Inr ((if count > 0 then tot div count else 0), minSentence, maxSentence))"

text \<open>The inner scan of \<open>detectSentencingDisparities\<close> for one judge.\<close>

definition disparityBody ::
  "contract \<Rightarrow> string \<Rightarrow> string \<Rightarrow> nat \<Rightarrow> nat \<times> nat \<Rightarrow> error + (nat \<times> nat)" where
  "disparityBody s chargeType jid j acc =
     (case acc of (tot, count) \<Rightarrow>
        if isAnalyzed (decryptedCases s j) \<and>
           keccak256 (charge (decryptedCases s j)) = keccak256 chargeType \<and>
           keccak256 (judgeId (decryptedCases s j)) = keccak256 jid
        then
          (let v = sentence (decryptedCases s j) in
           if tot + v > uint256_max then Inl Panic
           else Inr (tot + v, count + 1))
        else Inr acc)"

function disparityLoop ::
  "contract \<Rightarrow> string \<Rightarrow> string \<Rightarrow> nat \<Rightarrow> nat \<times> nat \<Rightarrow> error + (nat \<times> nat)" where
  "disparityLoop s chargeType jid j acc =
     (if j \<le> caseCount s then
        (case disparityBody s chargeType jid j acc of
           Inl e \<Rightarrow> Inl e
         | Inr acc' \<Rightarrow>
             if j \<ge> uint256_max then Inl Panic
             else disparityLoop s chargeType jid (j + 1) acc')
      else Inr acc)"
  by pat_completeness auto
termination
  by (relation "measure (\<lambda>(s, chargeType, jid, j, acc). caseCount s + 1 - j)") auto

declare disparityLoop.simps [simp del]

text \<open>
  The outer loop over \<open>judgeIds\<close>, filling the two result arrays at index \<open>i\<close>.
\<close>

function judgesLoop ::
  "contract \<Rightarrow> string \<Rightarrow> string list \<Rightarrow> nat \<Rightarrow> string list \<times> nat list
     \<Rightarrow> error + (string list \<times> nat list)" where
  "judgesLoop s chargeType judgeIds i res =
     (if i < length judgeIds then
        (case disparityLoop s chargeType (judgeIds ! i) 1 (0, 0) of
           Inl e \<Rightarrow> Inl e
         | Inr (tot, count) \<Rightarrow>
             (case res of (judges, avgSentences) \<Rightarrow>
                judgesLoop s chargeType judgeIds (i + 1)
                  (judges[i := judgeIds ! i],
                   avgSentences[i := (if count > 0 then tot div count else 0)])))
      else Inr res)"
  by pat_completeness auto
termination
  by (relation "measure (\<lambda>(s, chargeType, judgeIds, i, res). length judgeIds - i)") auto

declare judgesLoop.simps [simp del]

definition detectSentencingDisparities ::
  "contract \<Rightarrow> string \<Rightarrow> string list \<Rightarrow> error + (string list \<times> nat list)" where
  "detectSentencingDisparities s chargeType judgeIds =
     judgesLoop s chargeType judgeIds 0
       (replicate (length judgeIds) [], replicate (length judgeIds) 0)"

subsection \<open>Transactions and reachable states\<close>

text \<open>
  The state-changing entry points of the contract. A call that reverts leaves the
  storage as it was; \<open>run\<close> replays a sequence of calls from a state. The reachable
  states are the states \<open>run deployed calls\<close>.
\<close>

datatype call =
    SubmitEncryptedCase euint32 euint32 euint32 nat
  | RequestSentencingAnalysis nat
  | AnalyzeCase nat cleartexts kms_proof
  | RequestJudgeStatsDecryption string
  | DecryptJudgeStats nat cleartexts kms_proof

fun invoke :: "contract \<Rightarrow> call \<Rightarrow> error + contract" where
  "invoke s (SubmitEncryptedCase eCharge eSentence eJudge now) =
     submitEncryptedCase s eCharge eSentence eJudge now"
| "invoke s (RequestSentencingAnalysis caseId) = requestSentencingAnalysis s caseId"
| "invoke s (AnalyzeCase requestId ct p) = analyzeCase s requestId ct p"
| "invoke s (RequestJudgeStatsDecryption jid) = requestJudgeStatsDecryption s jid"
| "invoke s (DecryptJudgeStats requestId ct p) = decryptJudgeStats s requestId ct p"

definition transact :: "contract \<Rightarrow> call \<Rightarrow> contract" where
  "transact s c = (case invoke s c of Inl e \<Rightarrow> s | Inr s' \<Rightarrow> s')"

fun run :: "contract \<Rightarrow> call list \<Rightarrow> contract" where
  "run s [] = s"
| "run s (c # cs) = run (transact s c) cs"

subsection \<open>Specification-side notions\<close>

text \<open>
  The oracle's answer to a decryption request: the callback with cleartexts signed for
  that request.
\<close>

definition oracleAnalyzeCase :: "nat \<Rightarrow> cleartexts \<Rightarrow> call" where
  "oracleAnalyzeCase requestId ct = AnalyzeCase requestId ct (KmsSignatures requestId ct)"

text \<open>
  The sum, over the judges of the index, of the decrypted accumulators, and the number
  of case records \<open>1..caseCount\<close> whose projection is analyzed.
\<close>

definition accumulatorSum :: "contract \<Rightarrow> nat" where
  "accumulatorSum s = sum_list (map (\<lambda>j. decrypted (encryptedJudgeStats s j)) (judgeList s))"

definition analyzedCount :: "contract \<Rightarrow> nat" where
  "analyzedCount s =
     length (filter (\<lambda>i. isAnalyzed (decryptedCases s i)) [1..<Suc (caseCount s)])"

text \<open>
  The sentences of the case records \<open>i..caseCount\<close> whose projection is selected by
  \<open>sel\<close>, in ledger order. The sentences of the analyzed cases \<open>1..caseCount\<close>
  whose charge is exactly \<open>chargeType\<close>, and those that also cite judge \<open>jid\<close>.
\<close>

definition sentencesFrom :: "contract \<Rightarrow> (DecryptedCase \<Rightarrow> bool) \<Rightarrow> nat \<Rightarrow> nat list" where
  "sentencesFrom s sel i =
     map (\<lambda>k. sentence (decryptedCases s k))
       (filter (\<lambda>k. sel (decryptedCases s k)) [i..<Suc (caseCount s)])"

definition matchingSentences :: "contract \<Rightarrow> string \<Rightarrow> nat list" where
  "matchingSentences s chargeType =
     map (\<lambda>i. sentence (decryptedCases s i))
       (filter (\<lambda>i. isAnalyzed (decryptedCases s i) \<and> charge (decryptedCases s i) = chargeType)
          [1..<Suc (caseCount s)])"

definition judgeSentences :: "contract \<Rightarrow> string \<Rightarrow> string \<Rightarrow> nat list" where
  "judgeSentences s chargeType jid =
     map (\<lambda>i. sentence (decryptedCases s i))
       (filter (\<lambda>i. isAnalyzed (decryptedCases s i) \<and> charge (decryptedCases s i) = chargeType
                     \<and> judgeId (decryptedCases s i) = jid)
          [1..<Suc (caseCount s)])"

definition judgeAverage :: "contract \<Rightarrow> string \<Rightarrow> string \<Rightarrow> nat" where
  "judgeAverage s chargeType jid =
     (let ms = judgeSentences s chargeType jid
      in if ms = [] then 0 else sum_list ms div length ms)"

text \<open>
  The judges cited by the finalize callbacks that succeeded while a sequence of calls
  was replayed from a state.
\<close>

fun finalizedJudge :: "contract \<Rightarrow> call \<Rightarrow> string list" where
  "finalizedJudge s (AnalyzeCase requestId ct p) =
     (case analyzeCase s requestId ct p of
        Inl e \<Rightarrow> []
      | Inr s' \<Rightarrow> (case abi_decode_case ct of None \<Rightarrow> [] | Some (ch, se, ju) \<Rightarrow> [ju]))"
| "finalizedJudge s (SubmitEncryptedCase eCharge eSentence eJudge now) = []"
| "finalizedJudge s (RequestSentencingAnalysis caseId) = []"
| "finalizedJudge s (RequestJudgeStatsDecryption jid) = []"
| "finalizedJudge s (DecryptJudgeStats requestId ct p) = []"

fun finalizedJudges :: "contract \<Rightarrow> call list \<Rightarrow> string list" where
  "finalizedJudges s [] = []"
| "finalizedJudges s (c # cs) = finalizedJudge s c @ finalizedJudges (transact s c) cs"

text \<open>
  A sequence of calls in which every finalize callback, at the moment it is made,
  resolves to a case id that has been submitted (a target of 0 is rejected by
  \<open>analyzeCase\<close> itself).
\<close>

fun inLedger :: "contract \<Rightarrow> call \<Rightarrow> bool" where
  "inLedger s (AnalyzeCase requestId ct p) = (requestToCaseId s requestId \<le> caseCount s)"
| "inLedger s (SubmitEncryptedCase eCharge eSentence eJudge now) = True"
| "inLedger s (RequestSentencingAnalysis caseId) = True"
| "inLedger s (RequestJudgeStatsDecryption jid) = True"
| "inLedger s (DecryptJudgeStats requestId ct p) = True"

fun targetsSubmitted :: "contract \<Rightarrow> call list \<Rightarrow> bool" where
  "targetsSubmitted s [] = True"
| "targetsSubmitted s (c # cs) = (inLedger s c \<and> targetsSubmitted (transact s c) cs)"

subsection \<open>Concrete call sequences\<close>

text \<open>
  The scenario of the spec: three cases of charge Theft with sentences 10, 20 and 30
  for the judges A, A and B, each submitted, requested and finalized.
\<close>

definition threeThefts :: "call list" where
  "threeThefts =
     [SubmitEncryptedCase (Some 1) (Some 10) (Some 7) 100,
      SubmitEncryptedCase (Some 1) (Some 20) (Some 7) 101,
      SubmitEncryptedCase (Some 1) (Some 30) (Some 8) 102,
      RequestSentencingAnalysis 1,
      RequestSentencingAnalysis 2,
      RequestSentencingAnalysis 3,
      oracleAnalyzeCase 0 (CaseCleartexts ''Theft'' 10 ''A''),
      oracleAnalyzeCase 1 (CaseCleartexts ''Theft'' 20 ''A''),
      oracleAnalyzeCase 2 (CaseCleartexts ''Theft'' 30 ''B'')]"

text \<open>The scenario followed by a request to decrypt the accumulator of judge A.\<close>

definition threeTheftsStatsRequested :: "call list" where
  "threeTheftsStatsRequested = threeThefts @ [RequestJudgeStatsDecryption ''A'']"

text \<open>
  Analysis is requested for case id 5 on an empty ledger and the oracle's callback for
  that request is finalized.
\<close>

definition unsubmittedFinalized :: "call list" where
  "unsubmittedFinalized =
     [RequestSentencingAnalysis 5,
      oracleAnalyzeCase 0 (CaseCleartexts ''Theft'' 10 ''A'')]"

text \<open>
  Analysis is requested and finalized for case id 1 on an empty ledger; the first
  submission then takes id 1.
\<close>

definition finalizedThenSubmitted :: "call list" where
  "finalizedThenSubmitted =
     [RequestSentencingAnalysis 1,
      oracleAnalyzeCase 0 (CaseCleartexts ''Theft'' 10 ''A''),
      SubmitEncryptedCase (Some 1) (Some 10) (Some 7) 100]"

text \<open>One case is submitted and its analysis requested; the oracle has not answered.\<close>

definition pendingCase :: "call list" where
  "pendingCase =
     [SubmitEncryptedCase (Some 1) (Some 10) (Some 7) 100,
      RequestSentencingAnalysis 1]"

text \<open>The oracle then answers and the case is finalized; some later calls follow.\<close>

definition oneCaseFinalized :: "call list" where
  "oneCaseFinalized = pendingCase @ [oracleAnalyzeCase 0 (CaseCleartexts ''Theft'' 10 ''A'')]"

definition laterCalls :: "call list" where
  "laterCalls =
     [SubmitEncryptedCase (Some 2) (Some 20) (Some 8) 200,
      RequestSentencingAnalysis 2,
      RequestJudgeStatsDecryption ''A'']"

text \<open>
  Two ledgers whose Theft cases all carry the sentence 20: one with a single such case,
  one with two.
\<close>

definition oneTheft20 :: "call list" where
  "oneTheft20 =
     [SubmitEncryptedCase (Some 1) (Some 20) (Some 7) 100,
      RequestSentencingAnalysis 1,
      oracleAnalyzeCase 0 (CaseCleartexts ''Theft'' 20 ''A'')]"

definition twoThefts20 :: "call list" where
  "twoThefts20 =
     [SubmitEncryptedCase (Some 1) (Some 20) (Some 7) 100,
      SubmitEncryptedCase (Some 1) (Some 20) (Some 8) 101,
      RequestSentencingAnalysis 1,
      RequestSentencingAnalysis 2,
      oracleAnalyzeCase 0 (CaseCleartexts ''Theft'' 20 ''A''),
      oracleAnalyzeCase 1 (CaseCleartexts ''Theft'' 20 ''B'')]"

text \<open>
  Two cases of charge Theft for judge A whose sentences are \<open>2^255\<close> each: every
  sentence fits \<open>uint256\<close>, their sum does not.
\<close>

definition twoHugeSentences :: "call list" where
  "twoHugeSentences =
     [SubmitEncryptedCase (Some 1) (Some 10) (Some 7) 100,
      SubmitEncryptedCase (Some 1) (Some 20) (Some 7) 101,
      RequestSentencingAnalysis 1,
      RequestSentencingAnalysis 2,
      oracleAnalyzeCase 0 (CaseCleartexts ''Theft'' (2 ^ 255) ''A''),
      oracleAnalyzeCase 1 (CaseCleartexts ''Theft'' (2 ^ 255) ''A'')]"

section \<open>Verification\<close>

lemmas contract_defs =
  transact_def submitEncryptedCase_def requestSentencingAnalysis_def analyzeCase_def
  requestJudgeStatsDecryption_def decryptJudgeStats_def getJudgeFromHash_def
  FHE_requestDecryption_def FHE_checkSignatures_def FHE_isInitialized_def FHE_asEuint32_def
  FHE_add_def decrypted_def FHE_toBytes32_def bytes32ToUint_def oracleAnalyzeCase_def Let_def

lemmas deployed_defs = deployed_def zeroDecryptedCase_def zeroEncryptedCase_def

subsection \<open>Effects of the entry points\<close>

text \<open>What each entry point has written when it returns without reverting.\<close>

lemma submitEncryptedCase_effect:
  assumes "submitEncryptedCase s eCharge eSentence eJudge now = Inr s'"
  shows "caseCount s < uint256_max \<and>
         caseCount s' = caseCount s + 1 \<and>
         decryptedCases s' = (decryptedCases s)(caseCount s + 1 := zeroDecryptedCase) \<and>
         encryptedJudgeStats s' = encryptedJudgeStats s \<and>
         judgeList s' = judgeList s \<and>
         requestToCaseId s' = requestToCaseId s \<and>
         counterRequest s' = counterRequest s"
  using assms
  by (auto simp: submitEncryptedCase_def Let_def zeroDecryptedCase_def split: if_splits)

lemma requestSentencingAnalysis_effect:
  assumes "requestSentencingAnalysis s caseId = Inr s'"
  shows "\<not> isAnalyzed (decryptedCases s caseId) \<and>
         caseCount s' = caseCount s \<and>
         decryptedCases s' = decryptedCases s \<and>
         encryptedJudgeStats s' = encryptedJudgeStats s \<and>
         judgeList s' = judgeList s \<and>
         requestToCaseId s' = (requestToCaseId s)(counterRequest s := caseId) \<and>
         counterRequest s' = counterRequest s + 1"
  using assms
  by (auto simp: requestSentencingAnalysis_def FHE_requestDecryption_def Let_def
           split: if_splits)

lemma analyzeCase_effect:
  assumes "analyzeCase s requestId ct p = Inr s'"
  shows "\<exists>ch se ju.
           abi_decode_case ct = Some (ch, se, ju) \<and>
           FHE_checkSignatures requestId ct p \<and>
           requestToCaseId s requestId \<noteq> 0 \<and>
           \<not> isAnalyzed (decryptedCases s (requestToCaseId s requestId)) \<and>
           caseCount s' = caseCount s \<and>
           decryptedCases s' = (decryptedCases s)(requestToCaseId s requestId :=
             \<lparr>charge = ch, sentence = se, judgeId = ju, isAnalyzed = True\<rparr>) \<and>
           encryptedJudgeStats s' = (encryptedJudgeStats s)(ju :=
             Some (decrypted (encryptedJudgeStats s ju) + 1)) \<and>
           judgeList s' =
             (if encryptedJudgeStats s ju = None then judgeList s @ [ju] else judgeList s) \<and>
           requestToCaseId s' = requestToCaseId s \<and>
           counterRequest s' = counterRequest s"
proof -
  from assms obtain ch se ju where "abi_decode_case ct = Some (ch, se, ju)"
    by (auto simp: analyzeCase_def Let_def split: if_splits option.splits)
  with assms show ?thesis
    by (intro exI [of _ ch] exI [of _ se] exI [of _ ju])
       (auto simp: analyzeCase_def Let_def FHE_isInitialized_def FHE_asEuint32_def FHE_add_def
                   decrypted_def
             split: if_splits option.splits)
qed

lemma requestJudgeStatsDecryption_effect:
  assumes "requestJudgeStatsDecryption s jid = Inr s'"
  shows "encryptedJudgeStats s jid \<noteq> None \<and>
         caseCount s' = caseCount s \<and>
         decryptedCases s' = decryptedCases s \<and>
         encryptedJudgeStats s' = encryptedJudgeStats s \<and>
         judgeList s' = judgeList s \<and>
         requestToCaseId s' = (requestToCaseId s)(counterRequest s := keccak256 jid) \<and>
         counterRequest s' = counterRequest s + 1"
  using assms
  by (auto simp: requestJudgeStatsDecryption_def FHE_requestDecryption_def Let_def
                 FHE_isInitialized_def bytes32ToUint_def
           split: if_splits)

lemma decryptJudgeStats_effect:
  assumes "decryptJudgeStats s requestId ct p = Inr s'"
  shows "s' = s"
  using assms
  by (auto simp: decryptJudgeStats_def Let_def split: if_splits option.splits sum.splits)

text \<open>
  A transaction either leaves the state as it was (a revert, or the stats callback),
  or is a submission, or records a decryption request, or finalizes a case.
\<close>

lemma transact_effect:
  assumes "transact s c = s \<Longrightarrow> thesis"
    and "caseCount s < uint256_max \<Longrightarrow>
         caseCount (transact s c) = caseCount s + 1 \<Longrightarrow>
         decryptedCases (transact s c) = (decryptedCases s)(caseCount s + 1 := zeroDecryptedCase) \<Longrightarrow>
         encryptedJudgeStats (transact s c) = encryptedJudgeStats s \<Longrightarrow>
         judgeList (transact s c) = judgeList s \<Longrightarrow>
         requestToCaseId (transact s c) = requestToCaseId s \<Longrightarrow>
         counterRequest (transact s c) = counterRequest s \<Longrightarrow> thesis"
    and "\<And>target.
         caseCount (transact s c) = caseCount s \<Longrightarrow>
         decryptedCases (transact s c) = decryptedCases s \<Longrightarrow>
         encryptedJudgeStats (transact s c) = encryptedJudgeStats s \<Longrightarrow>
         judgeList (transact s c) = judgeList s \<Longrightarrow>
         requestToCaseId (transact s c) = (requestToCaseId s)(counterRequest s := target) \<Longrightarrow>
         counterRequest (transact s c) = counterRequest s + 1 \<Longrightarrow> thesis"
    and "\<And>requestId ct p ch se ju.
         c = AnalyzeCase requestId ct p \<Longrightarrow>
         requestToCaseId s requestId \<noteq> 0 \<Longrightarrow>
         \<not> isAnalyzed (decryptedCases s (requestToCaseId s requestId)) \<Longrightarrow>
         caseCount (transact s c) = caseCount s \<Longrightarrow>
         decryptedCases (transact s c) = (decryptedCases s)(requestToCaseId s requestId :=
           \<lparr>charge = ch, sentence = se, judgeId = ju, isAnalyzed = True\<rparr>) \<Longrightarrow>
         encryptedJudgeStats (transact s c) = (encryptedJudgeStats s)(ju :=
           Some (decrypted (encryptedJudgeStats s ju) + 1)) \<Longrightarrow>
         judgeList (transact s c) =
           (if encryptedJudgeStats s ju = None then judgeList s @ [ju] else judgeList s) \<Longrightarrow>
         requestToCaseId (transact s c) = requestToCaseId s \<Longrightarrow>
         counterRequest (transact s c) = counterRequest s \<Longrightarrow> thesis"
  shows thesis
proof (cases "invoke s c")
  case (Inl e)
  then show ?thesis using assms(1) by (simp add: transact_def)
next
  case (Inr s')
  then have t: "transact s c = s'" by (simp add: transact_def)
  show ?thesis
  proof (cases c)
    case (SubmitEncryptedCase eCharge eSentence eJudge now)
    with Inr have "submitEncryptedCase s eCharge eSentence eJudge now = Inr s'" by simp
    from submitEncryptedCase_effect [OF this] show ?thesis unfolding t [symmetric]
      by (intro assms(2)) simp_all
  next
    case (RequestSentencingAnalysis caseId)
    with Inr have "requestSentencingAnalysis s caseId = Inr s'" by simp
    from requestSentencingAnalysis_effect [OF this] show ?thesis unfolding t [symmetric]
      by (intro assms(3) [of caseId]) simp_all
  next
    case (AnalyzeCase requestId ct p)
    with Inr have "analyzeCase s requestId ct p = Inr s'" by simp
    from analyzeCase_effect [OF this] obtain ch se ju where
      "requestToCaseId s requestId \<noteq> 0"
      "\<not> isAnalyzed (decryptedCases s (requestToCaseId s requestId))"
      "caseCount s' = caseCount s"
      "decryptedCases s' = (decryptedCases s)(requestToCaseId s requestId :=
           \<lparr>charge = ch, sentence = se, judgeId = ju, isAnalyzed = True\<rparr>)"
      "encryptedJudgeStats s' = (encryptedJudgeStats s)(ju :=
           Some (decrypted (encryptedJudgeStats s ju) + 1))"
      "judgeList s' =
           (if encryptedJudgeStats s ju = None then judgeList s @ [ju] else judgeList s)"
      "requestToCaseId s' = requestToCaseId s"
      "counterRequest s' = counterRequest s"
      by blast
    then show ?thesis unfolding t [symmetric] by (rule assms(4) [OF AnalyzeCase])
  next
    case (RequestJudgeStatsDecryption jid)
    with Inr have "requestJudgeStatsDecryption s jid = Inr s'" by simp
    from requestJudgeStatsDecryption_effect [OF this] show ?thesis unfolding t [symmetric]
      by (intro assms(3) [of "keccak256 jid"]) simp_all
  next
    case (DecryptJudgeStats requestId ct p)
    with Inr have "decryptJudgeStats s requestId ct p = Inr s'" by simp
    from decryptJudgeStats_effect [OF this] t show ?thesis by (intro assms(1)) simp
  qed
qed

subsection \<open>Invariants of the ledger and of the pending requests\<close>

text \<open>A projection that is not analyzed is empty.\<close>

lemma transact_unanalyzed_empty:
  assumes "\<forall>i. \<not> isAnalyzed (decryptedCases s i) \<longrightarrow> decryptedCases s i = zeroDecryptedCase"
  shows "\<forall>i. \<not> isAnalyzed (decryptedCases (transact s c) i)
              \<longrightarrow> decryptedCases (transact s c) i = zeroDecryptedCase"
  by (rule transact_effect [of s c]) (use assms in auto)

lemma reachable_unanalyzed_empty:
  "\<not> isAnalyzed (decryptedCases (run deployed cs) i)
     \<Longrightarrow> decryptedCases (run deployed cs) i = zeroDecryptedCase"
proof -
  have "\<forall>i. \<not> isAnalyzed (decryptedCases s i) \<longrightarrow> decryptedCases s i = zeroDecryptedCase
        \<Longrightarrow> \<forall>i. \<not> isAnalyzed (decryptedCases (run s cs) i)
                  \<longrightarrow> decryptedCases (run s cs) i = zeroDecryptedCase" for s
  proof (induction cs arbitrary: s)
    case Nil
    then show ?case by simp
  next
    case (Cons c cs)
    from Cons.IH [OF transact_unanalyzed_empty [OF Cons.prems]] show ?case by simp
  qed
  from this [of deployed]
  show "\<not> isAnalyzed (decryptedCases (run deployed cs) i)
          \<Longrightarrow> decryptedCases (run deployed cs) i = zeroDecryptedCase"
    by (simp add: deployed_def)
qed

text \<open>A pending entry was issued by the oracle: its request id lies below the counter.\<close>

lemma transact_pending_issued:
  assumes "\<forall>r. requestToCaseId s r \<noteq> 0 \<longrightarrow> r < counterRequest s"
  shows "\<forall>r. requestToCaseId (transact s c) r \<noteq> 0 \<longrightarrow> r < counterRequest (transact s c)"
  by (rule transact_effect [of s c]) (use assms in \<open>auto simp: less_Suc_eq\<close>)

lemma reachable_pending_issued:
  "requestToCaseId (run deployed cs) r \<noteq> 0 \<Longrightarrow> r < counterRequest (run deployed cs)"
proof -
  have "\<forall>r. requestToCaseId s r \<noteq> 0 \<longrightarrow> r < counterRequest s
        \<Longrightarrow> \<forall>r. requestToCaseId (run s cs) r \<noteq> 0 \<longrightarrow> r < counterRequest (run s cs)" for s
  proof (induction cs arbitrary: s)
    case Nil
    then show ?case by simp
  next
    case (Cons c cs)
    from Cons.IH [OF transact_pending_issued [OF Cons.prems]] show ?case by simp
  qed
  from this [of deployed]
  show "requestToCaseId (run deployed cs) r \<noteq> 0 \<Longrightarrow> r < counterRequest (run deployed cs)"
    by (simp add: deployed_def)
qed

text \<open>An issued pending entry is never overwritten, since the counter only grows.\<close>

lemma transact_pending_kept:
  assumes "r < counterRequest s"
  shows "requestToCaseId (transact s c) r = requestToCaseId s r \<and>
         r < counterRequest (transact s c)"
  by (rule transact_effect [of s c]) (use assms in auto)

lemma run_pending_kept:
  "r < counterRequest s \<Longrightarrow> requestToCaseId (run s cs) r = requestToCaseId s r"
proof (induction cs arbitrary: s)
  case Nil
  then show ?case by simp
next
  case (Cons c cs)
  from transact_pending_kept [OF Cons.prems, of c] Cons.IH [of "transact s c"]
  show ?case by simp
qed

text \<open>
  The projection of a submitted case that is analyzed stays analyzed: a submission
  writes only the slot above \<open>caseCount\<close>.
\<close>

lemma transact_analyzed_kept:
  assumes "isAnalyzed (decryptedCases s i)" and "i \<le> caseCount s"
  shows "isAnalyzed (decryptedCases (transact s c) i) \<and> i \<le> caseCount (transact s c)"
  by (rule transact_effect [of s c]) (use assms in auto)

lemma run_analyzed_kept:
  "isAnalyzed (decryptedCases s i) \<Longrightarrow> i \<le> caseCount s
     \<Longrightarrow> isAnalyzed (decryptedCases (run s cs) i)"
proof (induction cs arbitrary: s)
  case Nil
  then show ?case by simp
next
  case (Cons c cs)
  from transact_analyzed_kept [OF Cons.prems, of c] Cons.IH [of "transact s c"]
  show ?case by simp
qed

subsection \<open>Finalize with an invalid proof\<close>

text \<open>
  Claim C2: when the proof of a finalize callback does not verify, the call fails with
  \<open>ProofInvalid\<close> and changes nothing. In every reachable state, for a pending
  request whose target case is not analyzed, \<open>analyzeCase\<close> with a proof that
  \<open>FHE.checkSignatures\<close> rejects reverts with \<open>ProofInvalid\<close>; the state after
  the call is the state before it, the target's projection reads as unanalyzed with
  empty charge, zero sentence and empty judge, and the accumulators and the judge
  index are as before.
\<close>

theorem analyzeCase_invalid_proof_fails_closed:
  assumes "requestToCaseId (run deployed cs) requestId = caseId" and "caseId \<noteq> 0"
    and "\<not> isAnalyzed (decryptedCases (run deployed cs) caseId)"
    and "\<not> FHE_checkSignatures requestId ct p"
  shows "analyzeCase (run deployed cs) requestId ct p = Inl ProofInvalid \<and>
         transact (run deployed cs) (AnalyzeCase requestId ct p) = run deployed cs \<and>
         getDecryptedCase (transact (run deployed cs) (AnalyzeCase requestId ct p)) caseId
           = ([], 0, [], False) \<and>
         encryptedJudgeStats (transact (run deployed cs) (AnalyzeCase requestId ct p))
           = encryptedJudgeStats (run deployed cs) \<and>
         judgeList (transact (run deployed cs) (AnalyzeCase requestId ct p))
           = judgeList (run deployed cs)"
proof -
  let ?s = "run deployed cs"
  have failed: "analyzeCase ?s requestId ct p = Inl ProofInvalid"
    using assms by (simp add: analyzeCase_def)
  then have same: "transact ?s (AnalyzeCase requestId ct p) = ?s"
    by (simp add: transact_def)
  have "decryptedCases ?s caseId = zeroDecryptedCase"
    using assms(3) by (rule reachable_unanalyzed_empty)
  then have "getDecryptedCase ?s caseId = ([], 0, [], False)"
    by (simp add: getDecryptedCase_def zeroDecryptedCase_def)
  with failed same show ?thesis by simp
qed

theorem analyzeCase_invalid_proof_fails_closed_witness:
  "requestToCaseId (run deployed pendingCase) 0 = 1 \<and>
   \<not> isAnalyzed (decryptedCases (run deployed pendingCase) 1) \<and>
   \<not> FHE_checkSignatures 0 (CaseCleartexts ''Theft'' 10 ''A'') Forged \<and>
   analyzeCase (run deployed pendingCase) 0 (CaseCleartexts ''Theft'' 10 ''A'') Forged
     = Inl ProofInvalid \<and>
   transact (run deployed pendingCase) (AnalyzeCase 0 (CaseCleartexts ''Theft'' 10 ''A'') Forged)
     = run deployed pendingCase \<and>
   getDecryptedCase
     (transact (run deployed pendingCase) (AnalyzeCase 0 (CaseCleartexts ''Theft'' 10 ''A'') Forged)) 1
     = ([], 0, [], False)"
proof -
  have h1: "requestToCaseId (run deployed pendingCase) 0 = 1"
    by (simp add: pendingCase_def contract_defs deployed_defs uint256_max_def)
  have h2: "(1::nat) \<noteq> 0" by simp
  have h3: "\<not> isAnalyzed (decryptedCases (run deployed pendingCase) 1)"
    by (simp add: pendingCase_def contract_defs deployed_defs uint256_max_def)
  have h4: "\<not> FHE_checkSignatures 0 (CaseCleartexts ''Theft'' 10 ''A'') Forged"
    by (simp add: FHE_checkSignatures_def)
  from analyzeCase_invalid_proof_fails_closed [OF h1 h2 h3 h4] h1 h3 h4 show ?thesis by blast
qed

subsection \<open>Replay after a finalize\<close>

text \<open>
  Claim C3, as the contract has it: once a valid finalize has succeeded for a submitted
  case (its id is at most \<open>caseCount\<close>), then after any further calls a request for
  analysis of that case fails with \<open>AlreadyAnalyzed\<close>, and a finalize with the same
  request id, whatever its payload and proof, fails with \<open>AlreadyAnalyzed\<close> as well.
  The pending entry is never deleted; it is the analyzed flag that rejects the replay.
\<close>

theorem finalized_case_rejects_replay:
  assumes "analyzeCase (run deployed cs) requestId ct p = Inr s'"
    and "requestToCaseId (run deployed cs) requestId = caseId"
    and "caseId \<le> caseCount (run deployed cs)"
  shows "requestSentencingAnalysis (run s' cs') caseId = Inl AlreadyAnalyzed \<and>
         analyzeCase (run s' cs') requestId ct' p' = Inl AlreadyAnalyzed"
proof -
  let ?s = "run deployed cs"
  from analyzeCase_effect [OF assms(1)] assms(2)
  have nonzero: "caseId \<noteq> 0"
    and analyzed: "isAnalyzed (decryptedCases s' caseId)"
    and count: "caseCount s' = caseCount ?s"
    and pending: "requestToCaseId s' requestId = caseId"
    and counter: "counterRequest s' = counterRequest ?s"
    by auto
  from nonzero assms(2) have "requestId < counterRequest ?s"
    using reachable_pending_issued [of cs requestId] by simp
  with counter have "requestId < counterRequest s'" by simp
  from run_pending_kept [OF this, of cs'] pending
  have later_pending: "requestToCaseId (run s' cs') requestId = caseId" by simp
  from assms(3) count have "caseId \<le> caseCount s'" by simp
  from run_analyzed_kept [OF analyzed this, of cs']
  have later_analyzed: "isAnalyzed (decryptedCases (run s' cs') caseId)" .
  from later_analyzed have "requestSentencingAnalysis (run s' cs') caseId = Inl AlreadyAnalyzed"
    by (simp add: requestSentencingAnalysis_def)
  moreover from later_pending later_analyzed nonzero
  have "analyzeCase (run s' cs') requestId ct' p' = Inl AlreadyAnalyzed"
    by (simp add: analyzeCase_def)
  ultimately show ?thesis by simp
qed

theorem finalized_case_rejects_replay_witness:
  "analyzeCase (run deployed pendingCase) 0 (CaseCleartexts ''Theft'' 10 ''A'')
       (KmsSignatures 0 (CaseCleartexts ''Theft'' 10 ''A''))
     = Inr (run deployed oneCaseFinalized) \<and>
   requestToCaseId (run deployed pendingCase) 0 = 1 \<and>
   1 \<le> caseCount (run deployed pendingCase) \<and>
   requestSentencingAnalysis (run (run deployed oneCaseFinalized) laterCalls) 1
     = Inl AlreadyAnalyzed \<and>
   analyzeCase (run (run deployed oneCaseFinalized) laterCalls) 0
       (CaseCleartexts ''Fraud'' 99 ''B'') (KmsSignatures 0 (CaseCleartexts ''Fraud'' 99 ''B''))
     = Inl AlreadyAnalyzed"
proof -
  have h1: "analyzeCase (run deployed pendingCase) 0 (CaseCleartexts ''Theft'' 10 ''A'')
              (KmsSignatures 0 (CaseCleartexts ''Theft'' 10 ''A''))
            = Inr (run deployed oneCaseFinalized)"
    by (simp add: oneCaseFinalized_def pendingCase_def contract_defs deployed_defs
          uint256_max_def)
  have h2: "requestToCaseId (run deployed pendingCase) 0 = 1"
    by (simp add: pendingCase_def contract_defs deployed_defs uint256_max_def)
  have h3: "1 \<le> caseCount (run deployed pendingCase)"
    by (simp add: pendingCase_def contract_defs deployed_defs uint256_max_def)
  from finalized_case_rejects_replay [OF h1 h2 h3, of laterCalls
      "CaseCleartexts ''Fraud'' 99 ''B''" "KmsSignatures 0 (CaseCleartexts ''Fraud'' 99 ''B'')"]
    h1 h2 h3
  show ?thesis by blast
qed

text \<open>
  The claim as stated fails: after the case of \<open>oneCaseFinalized\<close> was finalized
  through request 0, a second finalize with request id 0 fails with
  \<open>AlreadyAnalyzed\<close>, not with \<open>InvalidRequest\<close>.
\<close>

theorem second_finalize_not_InvalidRequest:
  "transact (run deployed pendingCase) (oracleAnalyzeCase 0 (CaseCleartexts ''Theft'' 10 ''A''))
     = run deployed oneCaseFinalized \<and>
   isAnalyzed (decryptedCases (run deployed oneCaseFinalized) 1) \<and>
   analyzeCase (run deployed oneCaseFinalized) 0 (CaseCleartexts ''Theft'' 10 ''A'')
       (KmsSignatures 0 (CaseCleartexts ''Theft'' 10 ''A''))
     = Inl AlreadyAnalyzed \<and>
   analyzeCase (run deployed oneCaseFinalized) 0 (CaseCleartexts ''Theft'' 10 ''A'')
       (KmsSignatures 0 (CaseCleartexts ''Theft'' 10 ''A''))
     \<noteq> Inl InvalidRequest"
  by (simp add: oneCaseFinalized_def pendingCase_def contract_defs deployed_defs uint256_max_def)

subsection \<open>String comparison through the hash\<close>

lemma keccak256_pos: "0 < keccak256 xs"
  by (induction xs) auto

lemma keccak256_eq_iff: "keccak256 xs = keccak256 ys \<longleftrightarrow> xs = ys"
proof (induction xs arbitrary: ys)
  case Nil
  show ?case
  proof (cases ys)
    case Nil
    then show ?thesis by simp
  next
    case (Cons d ds)
    have "1 < (of_char d :: nat) + 256 * keccak256 ds"
      using keccak256_pos [of ds] by arith
    with Cons show ?thesis by simp
  qed
next
  case (Cons c cs)
  show ?case
  proof (cases ys)
    case Nil
    have "1 < (of_char c :: nat) + 256 * keccak256 cs"
      using keccak256_pos [of cs] by arith
    with Nil show ?thesis by simp
  next
    case (Cons d ds)
    have "(of_char c :: nat) + 256 * keccak256 cs = of_char d + 256 * keccak256 ds
          \<longleftrightarrow> (of_char c :: nat) = of_char d \<and> keccak256 cs = keccak256 ds"
    proof
      assume eq: "(of_char c :: nat) + 256 * keccak256 cs = of_char d + 256 * keccak256 ds"
      then have "((of_char c :: nat) + 256 * keccak256 cs) mod 256
                   = (of_char d + 256 * keccak256 ds) mod 256"
        by simp
      then have "(of_char c :: nat) = of_char d" by simp
      with eq show "(of_char c :: nat) = of_char d \<and> keccak256 cs = keccak256 ds" by simp
    qed simp
    with Cons Cons.IH [of ds] show ?thesis by simp
  qed
qed

subsection \<open>The scans of the query engine\<close>

lemma sentencesFrom_done: "caseCount s < i \<Longrightarrow> sentencesFrom s sel i = []"
  by (simp add: sentencesFrom_def)

lemma sentencesFrom_step:
  "i \<le> caseCount s \<Longrightarrow>
   sentencesFrom s sel i =
     (if sel (decryptedCases s i) then sentence (decryptedCases s i) # sentencesFrom s sel (Suc i)
      else sentencesFrom s sel (Suc i))"
  by (simp add: sentencesFrom_def upt_conv_Cons del: upt_Suc)

lemma matchingSentences_sentencesFrom:
  "matchingSentences s chargeType =
     sentencesFrom s (\<lambda>c. isAnalyzed c \<and> charge c = chargeType) 1"
  by (simp add: matchingSentences_def sentencesFrom_def)

lemma judgeSentences_sentencesFrom:
  "judgeSentences s chargeType jid =
     sentencesFrom s (\<lambda>c. isAnalyzed c \<and> charge c = chargeType \<and> judgeId c = jid) 1"
  by (simp add: judgeSentences_def sentencesFrom_def)

lemma statsBody_skip:
  assumes "\<not> (isAnalyzed (decryptedCases s i) \<and> charge (decryptedCases s i) = chargeType)"
  shows "statsBody s chargeType i acc = Inr acc"
  using assms by (cases acc) (simp add: statsBody_def keccak256_eq_iff, blast)

lemma statsBody_match:
  assumes "isAnalyzed (decryptedCases s i)" and "charge (decryptedCases s i) = chargeType"
    and "tot + sentence (decryptedCases s i) \<le> uint256_max"
  shows "statsBody s chargeType i (tot, cnt, mn, mx) =
           Inr (tot + sentence (decryptedCases s i), cnt + 1,
                min (sentence (decryptedCases s i)) mn, max (sentence (decryptedCases s i)) mx)"
proof -
  have "(if v < mn then v else mn) = min v mn" "(if v > mx then v else mx) = max v mx" for v :: nat
    by (simp_all add: min_def max_def)
  with assms show ?thesis by (simp add: statsBody_def Let_def not_less [symmetric])
qed

text \<open>
  The loop of \<open>calculateSentencingStats\<close> from index \<open>i\<close>, when neither the running
  total nor the loop index leaves the range: induction on the number of iterations left.
\<close>

lemma statsLoop_result:
  assumes "caseCount s < uint256_max"
    and "tot + sum_list (sentencesFrom s (\<lambda>c. isAnalyzed c \<and> charge c = chargeType) i) \<le> uint256_max"
  shows "statsLoop s chargeType i (tot, cnt, mn, mx) =
           Inr (tot + sum_list (sentencesFrom s (\<lambda>c. isAnalyzed c \<and> charge c = chargeType) i),
                cnt + length (sentencesFrom s (\<lambda>c. isAnalyzed c \<and> charge c = chargeType) i),
                fold min (sentencesFrom s (\<lambda>c. isAnalyzed c \<and> charge c = chargeType) i) mn,
                fold max (sentencesFrom s (\<lambda>c. isAnalyzed c \<and> charge c = chargeType) i) mx)"
  using assms
proof (induction "Suc (caseCount s) - i" arbitrary: i tot cnt mn mx)
  case 0
  then have "caseCount s < i" by simp
  then show ?case by (simp add: statsLoop.simps sentencesFrom_done)
next
  case (Suc n)
  let ?sel = "\<lambda>c. isAnalyzed c \<and> charge c = chargeType"
  let ?v = "sentence (decryptedCases s i)"
  from Suc.hyps(2) have le: "i \<le> caseCount s" and n: "n = Suc (caseCount s) - Suc i"
    by simp_all
  from le Suc.prems(1) have lt: "\<not> uint256_max \<le> i" by simp
  note step = sentencesFrom_step [OF le, of ?sel]
  show ?case
  proof (cases "?sel (decryptedCases s i)")
    case True
    with step have list: "sentencesFrom s ?sel i = ?v # sentencesFrom s ?sel (Suc i)" by simp
    with Suc.prems(2) have fits: "tot + ?v \<le> uint256_max"
      and rest: "(tot + ?v) + sum_list (sentencesFrom s ?sel (Suc i)) \<le> uint256_max"
      by simp_all
    from True fits have body: "statsBody s chargeType i (tot, cnt, mn, mx) =
        Inr (tot + ?v, cnt + 1, min ?v mn, max ?v mx)"
      by (intro statsBody_match) simp_all
    have "statsLoop s chargeType i (tot, cnt, mn, mx) =
            statsLoop s chargeType (Suc i) (tot + ?v, cnt + 1, min ?v mn, max ?v mx)"
      using le lt body by (subst statsLoop.simps) simp
    also note Suc.hyps(1) [OF n Suc.prems(1) rest]
    finally show ?thesis by (simp add: list)
  next
    case False
    with step have list: "sentencesFrom s ?sel i = sentencesFrom s ?sel (Suc i)" by simp
    with Suc.prems(2) have rest: "tot + sum_list (sentencesFrom s ?sel (Suc i)) \<le> uint256_max"
      by simp
    from False have body: "statsBody s chargeType i (tot, cnt, mn, mx) = Inr (tot, cnt, mn, mx)"
      by (rule statsBody_skip)
    have "statsLoop s chargeType i (tot, cnt, mn, mx) =
            statsLoop s chargeType (Suc i) (tot, cnt, mn, mx)"
      using le lt body by (subst statsLoop.simps) simp
    also note Suc.hyps(1) [OF n Suc.prems(1) rest]
    finally show ?thesis by (simp add: list)
  qed
qed

lemma fold_min_Min:
  fixes a :: nat
  assumes "vs \<noteq> []" and "\<forall>v\<in>set vs. v \<le> a"
  shows "fold min vs a = Min (set vs)"
proof -
  have "fold min vs a = Min (set (a # vs))" by (simp only: Min.set_eq_fold)
  also have "\<dots> = min a (Min (set vs))" using assms(1) by simp
  also have "\<dots> = Min (set vs)" using assms by (simp add: min_absorb2)
  finally show ?thesis .
qed

lemma fold_max_Max:
  fixes vs :: "nat list"
  assumes "vs \<noteq> []"
  shows "fold max vs 0 = Max (set vs)"
proof -
  have "fold max vs 0 = Max (set (0 # vs))" by (simp only: Max.set_eq_fold)
  also have "\<dots> = max 0 (Max (set vs))" using assms by simp
  finally show ?thesis by simp
qed

subsection \<open>Statistics by charge\<close>

text \<open>
  Claim C5, as the contract has it: \<open>calculateSentencingStats\<close> returns the triple
  (average, minimum, maximum), without a count. When at least one analyzed case among
  \<open>1..caseCount\<close> has exactly the charge \<open>chargeType\<close> and the checked arithmetic
  does not panic (the matching sentences sum to at most \<open>2^256 - 1\<close> and
  \<open>caseCount\<close> is below \<open>2^256 - 1\<close>), the average is the sum of the matching
  sentences divided by their number, rounded down, and the minimum and maximum are
  those of the matching sentences.
\<close>

theorem calculateSentencingStats_result:
  assumes "caseCount s < uint256_max"
    and "sum_list (matchingSentences s chargeType) \<le> uint256_max"
    and "matchingSentences s chargeType \<noteq> []"
  shows "calculateSentencingStats s chargeType =
           Inr (sum_list (matchingSentences s chargeType) div length (matchingSentences s chargeType),
                Min (set (matchingSentences s chargeType)),
                Max (set (matchingSentences s chargeType)))"
proof -
  let ?vs = "matchingSentences s chargeType"
  from assms(2) have "0 + sum_list (sentencesFrom s (\<lambda>c. isAnalyzed c \<and> charge c = chargeType) 1)
      \<le> uint256_max"
    by (simp add: matchingSentences_sentencesFrom)
  from statsLoop_result [OF assms(1) this, of 0 uint256_max 0]
  have loop: "statsLoop s chargeType 1 (0, 0, uint256_max, 0) =
      Inr (sum_list ?vs, length ?vs, fold min ?vs uint256_max, fold max ?vs 0)"
    by (simp add: matchingSentences_sentencesFrom)
  have "\<forall>v\<in>set ?vs. v \<le> uint256_max"
  proof
    fix v assume "v \<in> set ?vs"
    then have "v \<le> sum_list ?vs" by (simp add: member_le_sum_list)
    with assms(2) show "v \<le> uint256_max" by simp
  qed
  with assms(3) have "fold min ?vs uint256_max = Min (set ?vs)" by (rule fold_min_Min)
  moreover from assms(3) have "fold max ?vs 0 = Max (set ?vs)" by (rule fold_max_Max)
  ultimately show ?thesis using loop assms(3)
    by (simp add: calculateSentencingStats_def)
qed

text \<open>The scenario of the spec: the three Theft cases give (20, 10, 30).\<close>

theorem calculateSentencingStats_result_witness:
  "calculateSentencingStats (run deployed threeThefts) ''Theft'' = Inr (20, 10, 30)"
proof -
  have ms: "matchingSentences (run deployed threeThefts) ''Theft'' = [10, 20, 30]"
    by (simp add: matchingSentences_def threeThefts_def contract_defs deployed_defs uint256_max_def)
  have h1: "caseCount (run deployed threeThefts) < uint256_max"
    by (simp add: threeThefts_def contract_defs deployed_defs uint256_max_def)
  have h2: "sum_list (matchingSentences (run deployed threeThefts) ''Theft'') \<le> uint256_max"
    unfolding ms by (simp add: uint256_max_def)
  have h3: "matchingSentences (run deployed threeThefts) ''Theft'' \<noteq> []"
    unfolding ms by simp
  from calculateSentencingStats_result [OF h1 h2 h3] show ?thesis
    unfolding ms by simp
qed

text \<open>
  The claim as stated fails: the result carries no count. A ledger with one Theft case
  and a ledger with two Theft cases, all of sentence 20, give the same result.
\<close>

theorem calculateSentencingStats_carries_no_count:
  "calculateSentencingStats (run deployed oneTheft20) ''Theft'' = Inr (20, 20, 20) \<and>
   calculateSentencingStats (run deployed twoThefts20) ''Theft'' = Inr (20, 20, 20) \<and>
   length (matchingSentences (run deployed oneTheft20) ''Theft'') = 1 \<and>
   length (matchingSentences (run deployed twoThefts20) ''Theft'') = 2"
  by (simp add: oneTheft20_def twoThefts20_def calculateSentencingStats_def statsLoop.simps
        statsBody_def matchingSentences_def contract_defs deployed_defs uint256_max_def
        numeral_2_eq_2 [symmetric])

subsection \<open>Disparities by judge\<close>

lemma disparityBody_skip:
  assumes "\<not> (isAnalyzed (decryptedCases s j) \<and> charge (decryptedCases s j) = chargeType
              \<and> judgeId (decryptedCases s j) = jid)"
  shows "disparityBody s chargeType jid j acc = Inr acc"
  using assms by (cases acc) (simp add: disparityBody_def keccak256_eq_iff, blast)

lemma disparityBody_match:
  assumes "isAnalyzed (decryptedCases s j)" and "charge (decryptedCases s j) = chargeType"
    and "judgeId (decryptedCases s j) = jid"
    and "tot + sentence (decryptedCases s j) \<le> uint256_max"
  shows "disparityBody s chargeType jid j (tot, cnt) =
           Inr (tot + sentence (decryptedCases s j), cnt + 1)"
  using assms by (simp add: disparityBody_def Let_def not_less [symmetric])

text \<open>The inner loop, by induction along its own recursion.\<close>

lemma disparityLoop_result:
  assumes "caseCount s < uint256_max"
    and "fst acc + sum_list (sentencesFrom s
           (\<lambda>c. isAnalyzed c \<and> charge c = chargeType \<and> judgeId c = jid) j) \<le> uint256_max"
  shows "disparityLoop s chargeType jid j acc =
           Inr (fst acc + sum_list (sentencesFrom s
                  (\<lambda>c. isAnalyzed c \<and> charge c = chargeType \<and> judgeId c = jid) j),
                snd acc + length (sentencesFrom s
                  (\<lambda>c. isAnalyzed c \<and> charge c = chargeType \<and> judgeId c = jid) j))"
  using assms
proof (induction s chargeType jid j acc rule: disparityLoop.induct)
  case (1 s chargeType jid j acc)
  let ?sel = "\<lambda>c. isAnalyzed c \<and> charge c = chargeType \<and> judgeId c = jid"
  let ?v = "sentence (decryptedCases s j)"
  obtain tot cnt where acc: "acc = (tot, cnt)" by (cases acc)
  show ?case
  proof (cases "j \<le> caseCount s")
    case False
    then show ?thesis by (simp add: disparityLoop.simps sentencesFrom_done)
  next
    case le: True
    with "1.prems"(1) have lt: "\<not> uint256_max \<le> j" by simp
    note step = sentencesFrom_step [OF le, of ?sel]
    show ?thesis
    proof (cases "?sel (decryptedCases s j)")
      case True
      with step have list: "sentencesFrom s ?sel j = ?v # sentencesFrom s ?sel (Suc j)" by simp
      with "1.prems"(2) acc have fits: "tot + ?v \<le> uint256_max"
        and rest: "fst (tot + ?v, cnt + 1) + sum_list (sentencesFrom s ?sel (j + 1)) \<le> uint256_max"
        by simp_all
      from True fits have body: "disparityBody s chargeType jid j acc = Inr (tot + ?v, cnt + 1)"
        unfolding acc by (intro disparityBody_match) simp_all
      have "disparityLoop s chargeType jid j acc =
              disparityLoop s chargeType jid (j + 1) (tot + ?v, cnt + 1)"
        using le lt body by (subst disparityLoop.simps) simp
      also note "1.IH" [OF le body lt "1.prems"(1) rest]
      finally show ?thesis by (simp add: list acc)
    next
      case False
      with step have list: "sentencesFrom s ?sel j = sentencesFrom s ?sel (Suc j)" by simp
      with "1.prems"(2) have rest: "fst acc + sum_list (sentencesFrom s ?sel (j + 1)) \<le> uint256_max"
        by simp
      from False have body: "disparityBody s chargeType jid j acc = Inr acc"
        by (rule disparityBody_skip)
      have "disparityLoop s chargeType jid j acc = disparityLoop s chargeType jid (j + 1) acc"
        using le lt body by (subst disparityLoop.simps) simp
      also note "1.IH" [OF le body lt "1.prems"(1) rest]
      finally show ?thesis by (simp add: list)
    qed
  qed
qed

lemma disparityLoop_average:
  assumes "caseCount s < uint256_max"
    and "sum_list (judgeSentences s chargeType jid) \<le> uint256_max"
  shows "disparityLoop s chargeType jid 1 (0, 0) =
           Inr (sum_list (judgeSentences s chargeType jid), length (judgeSentences s chargeType jid))"
  using disparityLoop_result [of s "(0, 0)" chargeType jid 1] assms
  by (simp add: judgeSentences_sentencesFrom)

text \<open>
  The outer loop: the slots below \<open>i\<close> keep what was written, the slots from \<open>i\<close>
  on receive the requested judges and their averages, in order.
\<close>

lemma judgesLoop_result:
  assumes "caseCount s < uint256_max"
    and "\<forall>jid\<in>set judgeIds. sum_list (judgeSentences s chargeType jid) \<le> uint256_max"
    and "length judges = length judgeIds" and "length avgs = length judgeIds"
  shows "judgesLoop s chargeType judgeIds i (judges, avgs) =
           Inr (take i judges @ drop i judgeIds,
                take i avgs @ map (judgeAverage s chargeType) (drop i judgeIds))"
  using assms(3,4)
proof (induction "length judgeIds - i" arbitrary: i judges avgs)
  case 0
  then have "\<not> i < length judgeIds" by simp
  with 0 show ?case by (simp add: judgesLoop.simps)
next
  case (Suc n)
  then have lt: "i < length judgeIds" and n: "n = length judgeIds - (i + 1)" by simp_all
  let ?jid = "judgeIds ! i"
  let ?ms = "judgeSentences s chargeType ?jid"
  from lt assms(2) have "sum_list ?ms \<le> uint256_max" by simp
  from disparityLoop_average [OF assms(1) this]
  have inner: "disparityLoop s chargeType ?jid 1 (0, 0) = Inr (sum_list ?ms, length ?ms)" .
  have avg: "(if length ?ms > 0 then sum_list ?ms div length ?ms else 0) = judgeAverage s chargeType ?jid"
    by (simp add: judgeAverage_def Let_def)
  have "judgesLoop s chargeType judgeIds i (judges, avgs) =
          judgesLoop s chargeType judgeIds (i + 1)
            (judges[i := ?jid], avgs[i := judgeAverage s chargeType ?jid])"
    using lt inner avg by (subst judgesLoop.simps) simp
  also have "\<dots> = Inr (take (i + 1) (judges[i := ?jid]) @ drop (i + 1) judgeIds,
                     take (i + 1) (avgs[i := judgeAverage s chargeType ?jid])
                       @ map (judgeAverage s chargeType) (drop (i + 1) judgeIds))"
    using Suc.prems by (intro Suc.hyps(1) [OF n]) simp_all
  also have "take (i + 1) (judges[i := ?jid]) @ drop (i + 1) judgeIds = take i judges @ drop i judgeIds"
    using lt Suc.prems(1) by (simp add: take_Suc_conv_app_nth Cons_nth_drop_Suc)
  also have "take (i + 1) (avgs[i := judgeAverage s chargeType ?jid])
               @ map (judgeAverage s chargeType) (drop (i + 1) judgeIds)
             = take i avgs @ map (judgeAverage s chargeType) (drop i judgeIds)"
    using lt Suc.prems(2) by (simp add: take_Suc_conv_app_nth Cons_nth_drop_Suc [symmetric])
  finally show ?case .
qed

text \<open>
  Claim C7, as the contract has it: when the checked arithmetic does not panic (for
  each requested judge the matching sentences sum to at most \<open>2^256 - 1\<close>, and
  \<open>caseCount\<close> is below \<open>2^256 - 1\<close>), \<open>detectSentencingDisparities\<close> returns,
  for the requested judges in their input order and with duplicates kept, each judge
  paired with the average sentence, rounded down, over the analyzed cases
  \<open>1..caseCount\<close> of that charge and judge, and 0 when there is none. The contract
  returns the pairs as two parallel arrays of the length of the input.
\<close>

theorem detectSentencingDisparities_result:
  assumes "caseCount s < uint256_max"
    and "\<forall>jid\<in>set judgeIds. sum_list (judgeSentences s chargeType jid) \<le> uint256_max"
  shows "detectSentencingDisparities s chargeType judgeIds =
           Inr (judgeIds, map (judgeAverage s chargeType) judgeIds)"
  using judgesLoop_result [OF assms, of "replicate (length judgeIds) []"
      "replicate (length judgeIds) 0" 0]
  by (simp add: detectSentencingDisparities_def)

theorem detectSentencingDisparities_result_witness:
  "detectSentencingDisparities (run deployed threeThefts) ''Theft'' [''A'', ''B'', ''A'', ''C'']
     = Inr ([''A'', ''B'', ''A'', ''C''], [15, 30, 15, 0])"
proof -
  let ?s = "run deployed threeThefts"
  have a: "judgeSentences ?s ''Theft'' ''A'' = [10, 20]"
    by (simp add: judgeSentences_def threeThefts_def contract_defs deployed_defs uint256_max_def)
  have b: "judgeSentences ?s ''Theft'' ''B'' = [30]"
    by (simp add: judgeSentences_def threeThefts_def contract_defs deployed_defs uint256_max_def)
  have c: "judgeSentences ?s ''Theft'' ''C'' = []"
    by (simp add: judgeSentences_def threeThefts_def contract_defs deployed_defs uint256_max_def)
  have h1: "caseCount ?s < uint256_max"
    by (simp add: threeThefts_def contract_defs deployed_defs uint256_max_def)
  have h2: "\<forall>jid\<in>set [''A'', ''B'', ''A'', ''C''].
              sum_list (judgeSentences ?s ''Theft'' jid) \<le> uint256_max"
    by (simp add: a b c uint256_max_def)
  from detectSentencingDisparities_result [OF h1 h2] show ?thesis
    by (simp add: judgeAverage_def a b c numeral_2_eq_2 [symmetric])
qed

text \<open>
  The claim as stated fails: the judges are not processed independently of one
  another. On the ledger of \<open>twoHugeSentences\<close> the query for judge B alone returns
  the average 0, but the query for the judges B and A returns no pair at all: the sum
  for judge A leaves \<open>uint256\<close> and the whole call reverts with a panic.
\<close>

theorem detectSentencingDisparities_panics_for_other_judge:
  "detectSentencingDisparities (run deployed twoHugeSentences) ''Theft'' [''B'', ''A'']
     = Inl Panic \<and>
   detectSentencingDisparities (run deployed twoHugeSentences) ''Theft'' [''B'']
     = Inr ([''B''], [0]) \<and>
   isAnalyzed (decryptedCases (run deployed twoHugeSentences) 1) \<and>
   isAnalyzed (decryptedCases (run deployed twoHugeSentences) 2)"
  by (simp add: twoHugeSentences_def detectSentencingDisparities_def judgesLoop.simps
        disparityLoop.simps disparityBody_def contract_defs deployed_defs uint256_max_def)

subsection \<open>Requesting the decryption of an accumulator\<close>

text \<open>
  The accumulator of a judge is initialised exactly by the finalize callbacks that
  cite the judge.
\<close>

lemma transact_initialized:
  "FHE_isInitialized (encryptedJudgeStats (transact s c) jid) \<longleftrightarrow>
     FHE_isInitialized (encryptedJudgeStats s jid) \<or> jid \<in> set (finalizedJudge s c)"
proof (cases c)
  case (AnalyzeCase requestId ct p)
  show ?thesis
  proof (cases "analyzeCase s requestId ct p")
    case (Inl e)
    with AnalyzeCase show ?thesis by (simp add: transact_def)
  next
    case (Inr s')
    from analyzeCase_effect [OF Inr] obtain ch se ju where
      "abi_decode_case ct = Some (ch, se, ju)"
      "encryptedJudgeStats s' = (encryptedJudgeStats s)(ju :=
         Some (decrypted (encryptedJudgeStats s ju) + 1))"
      by blast
    with AnalyzeCase Inr show ?thesis by (simp add: transact_def FHE_isInitialized_def)
  qed
next
  case (SubmitEncryptedCase eCharge eSentence eJudge now)
  then show ?thesis
    by (auto simp: transact_def dest!: submitEncryptedCase_effect split: sum.splits)
next
  case (RequestSentencingAnalysis caseId)
  then show ?thesis
    by (auto simp: transact_def dest!: requestSentencingAnalysis_effect split: sum.splits)
next
  case (RequestJudgeStatsDecryption j)
  then show ?thesis
    by (auto simp: transact_def dest!: requestJudgeStatsDecryption_effect split: sum.splits)
next
  case (DecryptJudgeStats requestId ct p)
  then show ?thesis
    by (auto simp: transact_def dest!: decryptJudgeStats_effect split: sum.splits)
qed

lemma run_initialized:
  "FHE_isInitialized (encryptedJudgeStats (run s cs) jid) \<longleftrightarrow>
     FHE_isInitialized (encryptedJudgeStats s jid) \<or> jid \<in> set (finalizedJudges s cs)"
  by (induction cs arbitrary: s) (auto simp: transact_initialized)

text \<open>
  Claim C9: in every reachable state \<open>requestJudgeStatsDecryption\<close> fails with
  \<open>NotFound\<close> exactly when no finalize callback citing the judge has succeeded so
  far. Otherwise it sends the accumulator's handle to the oracle with the selector of
  \<open>decryptJudgeStats\<close> and records, under the request id the oracle returns, the
  key \<open>keccak256(judgeId)\<close>.
\<close>

theorem requestJudgeStatsDecryption_NotFound_iff:
  "requestJudgeStatsDecryption (run deployed cs) jid =
     (if jid \<in> set (finalizedJudges deployed cs)
      then Inr ((run deployed cs)
             \<lparr>counterRequest := counterRequest (run deployed cs) + 1,
              decryptionRequests := decryptionRequests (run deployed cs) @
                [(counterRequest (run deployed cs),
                  [encryptedJudgeStats (run deployed cs) jid], DecryptJudgeStatsSelector)],
              requestToCaseId := (requestToCaseId (run deployed cs))
                (counterRequest (run deployed cs) := keccak256 jid)\<rparr>)
      else Inl NotFound)"
proof -
  have "FHE_isInitialized (encryptedJudgeStats (run deployed cs) jid)
          \<longleftrightarrow> jid \<in> set (finalizedJudges deployed cs)"
    by (simp add: run_initialized) (simp add: deployed_def FHE_isInitialized_def)
  then show ?thesis
    by (simp add: requestJudgeStatsDecryption_def FHE_requestDecryption_def FHE_toBytes32_def
          bytes32ToUint_def Let_def)
qed

theorem requestJudgeStatsDecryption_NotFound_iff_witness:
  "requestJudgeStatsDecryption (run deployed threeThefts) ''C'' = Inl NotFound \<and>
   finalizedJudges deployed threeThefts = [''A'', ''A'', ''B''] \<and>
   requestJudgeStatsDecryption (run deployed threeThefts) ''A'' =
     Inr ((run deployed threeThefts)
           \<lparr>counterRequest := 4,
            decryptionRequests := decryptionRequests (run deployed threeThefts) @
              [(3, [Some 2], DecryptJudgeStatsSelector)],
            requestToCaseId := (requestToCaseId (run deployed threeThefts))(3 := keccak256 ''A'')\<rparr>)"
proof -
  let ?s = "run deployed threeThefts"
  have f: "finalizedJudges deployed threeThefts = [''A'', ''A'', ''B'']"
    by (simp add: threeThefts_def contract_defs deployed_defs uint256_max_def)
  have n: "counterRequest ?s = 3"
    by (simp add: threeThefts_def contract_defs deployed_defs uint256_max_def)
  have a: "encryptedJudgeStats ?s ''A'' = Some 2"
    by (simp add: threeThefts_def contract_defs deployed_defs uint256_max_def)
  from requestJudgeStatsDecryption_NotFound_iff [of threeThefts "''C''"]
       requestJudgeStatsDecryption_NotFound_iff [of threeThefts "''A''"]
  show ?thesis unfolding f n a by simp
qed


subsection \<open>The accumulator invariant over submitted cases\<close>

text \<open>
  As long as every finalize callback resolves to a submitted case, the decrypted
  accumulators sum to the number of analyzed case records, and a case id above
  \<open>caseCount\<close> reads as the empty projection. The departures recorded below for the
  claims C1 and C10 need a finalize for a case id that was never submitted.
\<close>

lemma sum_list_update_absent:
  "j \<notin> set js \<Longrightarrow> sum_list (map (f(j := v)) js) = sum_list (map f js)"
  by (induction js) auto

lemma sum_list_update_present:
  fixes f :: "'a \<Rightarrow> nat"
  shows "distinct js \<Longrightarrow> j \<in> set js \<Longrightarrow>
         sum_list (map (f(j := f j + 1)) js) = sum_list (map f js) + 1"
  by (induction js) (auto simp: sum_list_update_absent)

lemma filter_agree_absent:
  "t \<notin> set xs \<Longrightarrow> \<forall>i. i \<noteq> t \<longrightarrow> P' i = P i \<Longrightarrow> filter P' xs = filter P xs"
  by (rule filter_cong) auto

lemma count_one_more:
  "distinct xs \<Longrightarrow> t \<in> set xs \<Longrightarrow> \<not> P t \<Longrightarrow> P' t \<Longrightarrow> \<forall>i. i \<noteq> t \<longrightarrow> P' i = P i \<Longrightarrow>
   length (filter P' xs) = length (filter P xs) + 1"
proof (induction xs)
  case Nil
  then show ?case by simp
next
  case (Cons x xs)
  show ?case
  proof (cases "x = t")
    case True
    with Cons.prems have "t \<notin> set xs" by simp
    from filter_agree_absent [OF this Cons.prems(5)] True Cons.prems(3,4)
    show ?thesis by simp
  next
    case False
    with Cons.prems have "distinct xs" "t \<in> set xs" "P' x = P x" by auto
    with Cons.IH Cons.prems(3,4,5) show ?thesis by simp
  qed
qed

lemma accumulatorSum_finalized:
  assumes "distinct (judgeList s)"
    and "\<forall>j. encryptedJudgeStats s j \<noteq> None \<longleftrightarrow> j \<in> set (judgeList s)"
    and "encryptedJudgeStats s' = (encryptedJudgeStats s)(ju :=
           Some (decrypted (encryptedJudgeStats s ju) + 1))"
    and "judgeList s' =
           (if encryptedJudgeStats s ju = None then judgeList s @ [ju] else judgeList s)"
  shows "accumulatorSum s' = accumulatorSum s + 1"
proof -
  let ?f = "\<lambda>j. decrypted (encryptedJudgeStats s j)"
  have f': "(\<lambda>j. decrypted (encryptedJudgeStats s' j)) = ?f(ju := ?f ju + 1)"
    by (auto simp: assms(3) decrypted_def)
  have sum': "accumulatorSum s' = sum_list (map (?f(ju := ?f ju + 1)) (judgeList s'))"
    by (simp only: accumulatorSum_def f')
  from assms(2) have known: "encryptedJudgeStats s ju \<noteq> None \<longleftrightarrow> ju \<in> set (judgeList s)" ..
  show ?thesis
  proof (cases "encryptedJudgeStats s ju = None")
    case True
    with known have absent: "ju \<notin> set (judgeList s)" by simp
    from True have zero: "?f ju = 0" by (simp add: decrypted_def)
    from True assms(4) have "judgeList s' = judgeList s @ [ju]" by simp
    with sum' have "accumulatorSum s' = sum_list (map (?f(ju := ?f ju + 1)) (judgeList s @ [ju]))"
      by simp
    also from absent have "\<dots> = sum_list (map ?f (judgeList s)) + (?f ju + 1)"
      by (simp add: sum_list_update_absent)
    also from zero have "\<dots> = accumulatorSum s + 1"
      by (simp add: accumulatorSum_def)
    finally show ?thesis .
  next
    case False
    with known have present: "ju \<in> set (judgeList s)" by simp
    from False assms(4) have "judgeList s' = judgeList s" by simp
    with sum' have "accumulatorSum s' = sum_list (map (?f(ju := ?f ju + 1)) (judgeList s))"
      by simp
    also from assms(1) present have "\<dots> = sum_list (map ?f (judgeList s)) + 1"
      by (rule sum_list_update_present)
    also have "\<dots> = accumulatorSum s + 1"
      by (simp add: accumulatorSum_def)
    finally show ?thesis .
  qed
qed

lemma analyzedCount_finalized:
  assumes "t \<noteq> 0" and "t \<le> caseCount s" and "\<not> isAnalyzed (decryptedCases s t)"
    and "caseCount s' = caseCount s"
    and "decryptedCases s' = (decryptedCases s)(t :=
           \<lparr>charge = ch, sentence = se, judgeId = ju, isAnalyzed = True\<rparr>)"
  shows "analyzedCount s' = analyzedCount s + 1"
proof -
  from assms(1,2) have "t \<in> set [1..<Suc (caseCount s)]" by auto
  with assms(3) have "length (filter (\<lambda>i. isAnalyzed (decryptedCases s' i)) [1..<Suc (caseCount s)])
      = length (filter (\<lambda>i. isAnalyzed (decryptedCases s i)) [1..<Suc (caseCount s)]) + 1"
    by (intro count_one_more [of _ t]) (simp_all add: assms(5))
  then show ?thesis by (simp add: analyzedCount_def assms(4))
qed

lemma analyzedCount_submitted:
  assumes "\<forall>i. isAnalyzed (decryptedCases s i) \<longrightarrow> i \<le> caseCount s"
    and "caseCount s' = caseCount s + 1"
    and "decryptedCases s' = (decryptedCases s)(caseCount s + 1 := zeroDecryptedCase)"
  shows "analyzedCount s' = analyzedCount s"
proof -
  have "filter (\<lambda>i. isAnalyzed (decryptedCases s' i)) [1..<Suc (caseCount s)]
          = filter (\<lambda>i. isAnalyzed (decryptedCases s i)) [1..<Suc (caseCount s)]"
    by (intro filter_agree_absent [of "Suc (caseCount s)"]) (simp_all add: assms(3))
  moreover have "\<not> isAnalyzed (decryptedCases s' (Suc (caseCount s)))"
    by (simp add: assms(3) zeroDecryptedCase_def)
  ultimately show ?thesis
    by (simp add: analyzedCount_def assms(2))
qed


text \<open>
  The accumulator invariant together with what it needs: the judge index lists each
  judge with an accumulator once, and only submitted cases are analyzed.
\<close>

lemma transact_accumulators:
  assumes "inLedger s c"
    and "distinct (judgeList s)"
    and "\<forall>j. encryptedJudgeStats s j \<noteq> None \<longleftrightarrow> j \<in> set (judgeList s)"
    and "\<forall>i. isAnalyzed (decryptedCases s i) \<longrightarrow> i \<le> caseCount s"
    and "accumulatorSum s = analyzedCount s"
  shows "distinct (judgeList (transact s c)) \<and>
         (\<forall>j. encryptedJudgeStats (transact s c) j \<noteq> None \<longleftrightarrow> j \<in> set (judgeList (transact s c))) \<and>
         (\<forall>i. isAnalyzed (decryptedCases (transact s c) i) \<longrightarrow> i \<le> caseCount (transact s c)) \<and>
         accumulatorSum (transact s c) = analyzedCount (transact s c)"
proof (rule transact_effect [of s c])
  assume "transact s c = s"
  with assms show ?thesis by simp
next
  assume eff: "caseCount (transact s c) = caseCount s + 1"
    "decryptedCases (transact s c) = (decryptedCases s)(caseCount s + 1 := zeroDecryptedCase)"
    "encryptedJudgeStats (transact s c) = encryptedJudgeStats s"
    "judgeList (transact s c) = judgeList s"
  from analyzedCount_submitted [OF assms(4) eff(1,2)] assms(5) eff(3,4)
  have "accumulatorSum (transact s c) = analyzedCount (transact s c)"
    by (simp add: accumulatorSum_def)
  moreover from assms(4) eff(1,2)
  have "\<forall>i. isAnalyzed (decryptedCases (transact s c) i) \<longrightarrow> i \<le> caseCount (transact s c)"
    by (auto simp: zeroDecryptedCase_def)
  ultimately show ?thesis using assms(2,3) eff(3,4) by simp
next
  fix target
  assume eff: "caseCount (transact s c) = caseCount s"
    "decryptedCases (transact s c) = decryptedCases s"
    "encryptedJudgeStats (transact s c) = encryptedJudgeStats s"
    "judgeList (transact s c) = judgeList s"
  with assms show ?thesis by (simp add: accumulatorSum_def analyzedCount_def)
next
  fix requestId ct p ch se ju
  assume c: "c = AnalyzeCase requestId ct p"
    and target: "requestToCaseId s requestId \<noteq> 0"
      "\<not> isAnalyzed (decryptedCases s (requestToCaseId s requestId))"
    and eff: "caseCount (transact s c) = caseCount s"
      "decryptedCases (transact s c) = (decryptedCases s)(requestToCaseId s requestId :=
         \<lparr>charge = ch, sentence = se, judgeId = ju, isAnalyzed = True\<rparr>)"
      "encryptedJudgeStats (transact s c) = (encryptedJudgeStats s)(ju :=
         Some (decrypted (encryptedJudgeStats s ju) + 1))"
      "judgeList (transact s c) =
         (if encryptedJudgeStats s ju = None then judgeList s @ [ju] else judgeList s)"
  from assms(1) c have submitted: "requestToCaseId s requestId \<le> caseCount s" by simp
  from accumulatorSum_finalized [OF assms(2,3) eff(3,4)]
       analyzedCount_finalized [OF target(1) submitted target(2) eff(1,2)] assms(5)
  have "accumulatorSum (transact s c) = analyzedCount (transact s c)" by simp
  moreover from assms(4) submitted eff(1,2)
  have "\<forall>i. isAnalyzed (decryptedCases (transact s c) i) \<longrightarrow> i \<le> caseCount (transact s c)"
    by auto
  moreover have "distinct (judgeList (transact s c)) \<and>
    (\<forall>j. encryptedJudgeStats (transact s c) j \<noteq> None \<longleftrightarrow> j \<in> set (judgeList (transact s c)))"
  proof -
    from assms(3) have index: "j \<in> set (judgeList s) \<longleftrightarrow> encryptedJudgeStats s j \<noteq> None" for j
      by blast
    from assms(2) eff(3,4) show ?thesis by (auto simp: index)
  qed
  ultimately show ?thesis by simp
qed

lemma run_accumulators:
  assumes "targetsSubmitted s cs"
    and "distinct (judgeList s)"
    and "\<forall>j. encryptedJudgeStats s j \<noteq> None \<longleftrightarrow> j \<in> set (judgeList s)"
    and "\<forall>i. isAnalyzed (decryptedCases s i) \<longrightarrow> i \<le> caseCount s"
    and "accumulatorSum s = analyzedCount s"
  shows "(\<forall>i. isAnalyzed (decryptedCases (run s cs) i) \<longrightarrow> i \<le> caseCount (run s cs)) \<and>
         accumulatorSum (run s cs) = analyzedCount (run s cs)"
  using assms
proof (induction cs arbitrary: s)
  case Nil
  then show ?case by simp
next
  case (Cons c cs)
  from Cons.prems(1) have here: "inLedger s c" and later: "targetsSubmitted (transact s c) cs"
    by simp_all
  from transact_accumulators [OF here Cons.prems(2-5)] Cons.IH [OF later]
  show ?case by simp
qed

lemma accumulatorSum_when_targets_submitted:
  assumes "targetsSubmitted deployed cs"
  shows "accumulatorSum (run deployed cs) = analyzedCount (run deployed cs)"
  using run_accumulators [OF assms]
  by (simp add: deployed_defs accumulatorSum_def analyzedCount_def)

lemma getDecryptedCase_unsubmitted_when_targets_submitted:
  assumes "targetsSubmitted deployed cs" and "caseCount (run deployed cs) < caseId"
  shows "getDecryptedCase (run deployed cs) caseId = ([], 0, [], False)"
proof -
  from run_accumulators [OF assms(1)]
  have "\<forall>i. isAnalyzed (decryptedCases (run deployed cs) i) \<longrightarrow> i \<le> caseCount (run deployed cs)"
    by (simp add: deployed_defs accumulatorSum_def analyzedCount_def)
  with assms(2) have "\<not> isAnalyzed (decryptedCases (run deployed cs) caseId)" by auto
  from reachable_unanalyzed_empty [OF this] show ?thesis
    by (simp add: getDecryptedCase_def zeroDecryptedCase_def)
qed

lemma threeThefts_targets_submitted: "targetsSubmitted deployed threeThefts"
  by (simp add: threeThefts_def contract_defs deployed_defs uint256_max_def)

subsection \<open>Behaviour that departs from the specification\<close>

text \<open>
  Claim C4: \<open>requestAnalysis\<close> is to fail with \<open>NotFound\<close> for a case id that
  \<open>submit\<close> never assigned. The contract has no such check: on the freshly deployed
  contract, where \<open>caseCount\<close> is 0, a request for case id 7 succeeds, sends three
  uninitialised handles to the oracle and records the pending entry \<open>0 \<mapsto> 7\<close>.
  No call of \<open>requestSentencingAnalysis\<close> fails with \<open>NotFound\<close>.
\<close>

theorem requestSentencingAnalysis_unknown_case_accepted:
  "caseCount deployed = 0 \<and>
   requestSentencingAnalysis deployed 7 =
     Inr (deployed\<lparr>requestToCaseId := (requestToCaseId deployed)(0 := 7),
                   events := [AnalysisRequested 7],
                   counterRequest := 1,
                   decryptionRequests := [(0, [None, None, None], AnalyzeCaseSelector)]\<rparr>) \<and>
   (\<forall>s caseId. requestSentencingAnalysis s caseId \<noteq> Inl NotFound)"
proof (intro conjI)
  show "caseCount deployed = 0"
    by (simp add: deployed_def)
  show "requestSentencingAnalysis deployed 7 =
     Inr (deployed\<lparr>requestToCaseId := (requestToCaseId deployed)(0 := 7),
                   events := [AnalysisRequested 7],
                   counterRequest := 1,
                   decryptionRequests := [(0, [None, None, None], AnalyzeCaseSelector)]\<rparr>)"
    by (simp add: requestSentencingAnalysis_def FHE_requestDecryption_def FHE_toBytes32_def
          deployed_defs)
  show "\<forall>s caseId. requestSentencingAnalysis s caseId \<noteq> Inl NotFound"
    by (simp add: requestSentencingAnalysis_def FHE_requestDecryption_def Let_def)
qed

lemma calculateSentencingStats_no_match:
  assumes "caseCount s < uint256_max" and "matchingSentences s chargeType = []"
  shows "calculateSentencingStats s chargeType = Inr (0, uint256_max, 0)"
proof -
  from assms(2) have none: "sentencesFrom s (\<lambda>c. isAnalyzed c \<and> charge c = chargeType) 1 = []"
    by (simp add: matchingSentences_sentencesFrom)
  then have "0 + sum_list (sentencesFrom s (\<lambda>c. isAnalyzed c \<and> charge c = chargeType) 1)
      \<le> uint256_max"
    by simp
  from statsLoop_result [OF assms(1) this, of 0 uint256_max 0] none show ?thesis
    by (simp add: calculateSentencingStats_def)
qed

text \<open>
  Claim C6: with no matching analyzed case \<open>statsByCharge\<close> is to report an explicit
  empty result for the minimum and the maximum, never the sentinel. After the scenario
  of three Theft cases, the query for Fraud returns the average 0, the maximum 0 and,
  as the minimum, the initial value \<open>type(uint256).max\<close> of its scan.
\<close>

theorem calculateSentencingStats_no_match_leaks_sentinel:
  "calculateSentencingStats (run deployed threeThefts) ''Fraud'' = Inr (0, 2 ^ 256 - 1, 0)"
  by (simp add: threeThefts_def calculateSentencingStats_def statsLoop.simps statsBody_def
        contract_defs deployed_defs uint256_max_def)

text \<open>
  Claim C8: after a successful \<open>finalizeStats\<close> callback the decrypted count is to
  be stored or returned. \<open>decryptJudgeStats\<close> returns nothing, and the successful
  callback that delivers the count 2 for judge A leaves the whole contract state as it
  was; indeed no call of \<open>decryptJudgeStats\<close> changes the state.
\<close>

theorem decryptJudgeStats_discards_count:
  "decryptJudgeStats (run deployed threeTheftsStatsRequested) 3 (StatsCleartexts 2)
       (KmsSignatures 3 (StatsCleartexts 2))
     = Inr (run deployed threeTheftsStatsRequested) \<and>
   (\<forall>s requestId ct p. transact s (DecryptJudgeStats requestId ct p) = s)"
proof
  let ?s = "run deployed threeTheftsStatsRequested"
  have pending: "requestToCaseId ?s 3 = keccak256 ''A''"
    by (simp add: threeTheftsStatsRequested_def threeThefts_def contract_defs deployed_defs
          uint256_max_def)
  have index: "judgeList ?s = [''A'', ''B'']"
    by (simp add: threeTheftsStatsRequested_def threeThefts_def contract_defs deployed_defs
          uint256_max_def)
  show "decryptJudgeStats ?s 3 (StatsCleartexts 2) (KmsSignatures 3 (StatsCleartexts 2)) = Inr ?s"
    unfolding decryptJudgeStats_def getJudgeFromHash_def pending index
    by (simp add: FHE_checkSignatures_def bytes32ToUint_def)
next
  show "\<forall>s requestId ct p. transact s (DecryptJudgeStats requestId ct p) = s"
    by (simp add: transact_def decryptJudgeStats_def split: sum.splits option.splits)
qed

text \<open>
  Claim C10: \<open>getCase\<close> is to return the empty projection for every case id that was
  never submitted. \<open>getDecryptedCase\<close> never fails, but after analysis was requested
  and finalized for case id 5 on an empty ledger it returns an analyzed projection for
  that id, although \<open>caseCount\<close> is still 0.
\<close>

theorem getDecryptedCase_unsubmitted_case_analyzed:
  "caseCount (run deployed unsubmittedFinalized) = 0 \<and>
   getDecryptedCase (run deployed unsubmittedFinalized) 5 = (''Theft'', 10, ''A'', True)"
  by (simp add: unsubmittedFinalized_def getDecryptedCase_def contract_defs deployed_defs
        uint256_max_def)

text \<open>
  Claim C1: in every reachable state the decrypted accumulators are to sum to the number
  of analyzed case records. After analysis was requested and finalized for case id 1 on
  an empty ledger and a case was then submitted, the accumulator of judge A holds 1 and
  the accumulators sum to 1, while the ledger has one case record and no projection at
  all is analyzed.
\<close>

theorem accumulator_sum_exceeds_analyzed_count:
  "accumulatorSum (run deployed finalizedThenSubmitted) = 1 \<and>
   analyzedCount (run deployed finalizedThenSubmitted) = 0 \<and>
   caseCount (run deployed finalizedThenSubmitted) = 1 \<and>
   (\<forall>i. \<not> isAnalyzed (decryptedCases (run deployed finalizedThenSubmitted) i))"
  by (simp add: finalizedThenSubmitted_def accumulatorSum_def analyzedCount_def
        contract_defs deployed_defs uint256_max_def)

end
